theory Spec2Isabelle
  imports Main "HOL-Library.Multiset"
begin

section \<open>Strings the program builds\<close>

text \<open>
  Python renders a non-negative integer in decimal in the f-strings
  \<^verbatim>\<open>f"RING_{ring_counter:03d}"\<close> and \<^verbatim>\<open>f"cycle_length_{len(cycle)}"\<close>.
\<close>

definition digit_char :: "nat \<Rightarrow> char" where
  "digit_char d = ''0123456789'' ! d"

function str_nat :: "nat \<Rightarrow> string" where
  "str_nat n = (if n < 10 then [digit_char n] else str_nat (n div 10) @ [digit_char (n mod 10)])"
  by pat_completeness auto
termination
  by (relation "measure id") auto

declare str_nat.simps [simp del]

text \<open>The format specification \<^verbatim>\<open>03d\<close>: pad with zeros on the left up to width three.\<close>

definition fmt_03d :: "nat \<Rightarrow> string" where
  "fmt_03d n = replicate (3 - length (str_nat n)) (CHR ''0'') @ str_nat n"

text \<open>The test \<^verbatim>\<open>needle in hay\<close> on two Python strings: a contiguous occurrence.\<close>

definition starts_with :: "string \<Rightarrow> string \<Rightarrow> bool" where
  "starts_with hay needle = (take (length needle) hay = needle)"

fun str_in :: "string \<Rightarrow> string \<Rightarrow> bool" where
  "str_in needle [] = (needle = [])"
| "str_in needle (c # cs) = (starts_with (c # cs) needle \<or> str_in needle cs)"


section \<open>The directed graph\<close>

text \<open>
  \<^verbatim>\<open>nx.DiGraph\<close> keeps its nodes and, per node, its successors in dictionaries,
  which iterate in insertion order and hold each key once. The model keeps the
  nodes and the edges as lists in insertion order.
\<close>

record graph =
  nodes :: "string list"
  edges :: "(string \<times> string) list"

definition empty_graph :: graph where
  "empty_graph = \<lparr>nodes = [], edges = []\<rparr>"

definition add_node :: "string \<Rightarrow> string list \<Rightarrow> string list" where
  "add_node n ns = (if n \<in> set ns then ns else ns @ [n])"

definition add_edge :: "string \<Rightarrow> string \<Rightarrow> graph \<Rightarrow> graph" where
  "add_edge u v G =
     \<lparr>nodes = add_node v (add_node u (nodes G)),
      edges = (if (u, v) \<in> set (edges G) then edges G else edges G @ [(u, v)])\<rparr>"

definition successors :: "(string \<times> string) list \<Rightarrow> string \<Rightarrow> string list" where
  "successors E v = map snd (filter (\<lambda>e. fst e = v) E)"

definition in_degree :: "graph \<Rightarrow> string \<Rightarrow> nat" where
  "in_degree G n = length (filter (\<lambda>e. snd e = n) (edges G))"

definition out_degree :: "graph \<Rightarrow> string \<Rightarrow> nat" where
  "out_degree G n = length (filter (\<lambda>e. fst e = n) (edges G))"


section \<open>Cycle detection\<close>

text \<open>
  Modelled from the spec: \<^verbatim>\<open>nx.simple_cycles\<close> is the graph library's enumerator,
  absent from the sources. The spec (4.2) asks for every simple directed cycle, a
  closed walk visiting each node at most once, found in a fixed traversal order:
  by starting node, then by depth-first visitation order. \<open>cycle_search\<close> walks
  depth-first from the start \<open>s\<close> through the nodes still \<open>avail\<close>able, and
  emits the path each time an edge leads back to \<open>s\<close>; \<open>cycles_from\<close> starts
  one search per node and lets it use the later nodes only, so that a cycle is
  found from its earliest node. A self-loop is emitted as a cycle of one node.
\<close>

function cycle_search ::
  "(string \<times> string) list \<Rightarrow> string \<Rightarrow> string list \<Rightarrow> string list \<Rightarrow> string \<Rightarrow> string list list"
where
  "cycle_search E s avail path v =
     concat (map (\<lambda>w. if w = s then [rev path]
                      else if w \<in> set avail then cycle_search E s (removeAll w avail) (w # path) w
                      else [])
                 (successors E v))"
  by pat_completeness auto
termination
  by (relation "measure (\<lambda>(E, s, avail, path, v). length avail)")
     (auto simp: length_removeAll_less)

declare cycle_search.simps [simp del]

fun cycles_from :: "(string \<times> string) list \<Rightarrow> string list \<Rightarrow> string list list" where
  "cycles_from E [] = []"
| "cycles_from E (s # rest) = cycle_search E s rest [s] s @ cycles_from E rest"

definition simple_cycles :: "graph \<Rightarrow> string list list" where
  "simple_cycles G = cycles_from (edges G) (nodes G)"

definition detect_cycles :: "graph \<Rightarrow> string list list" where
  "detect_cycles G = (let all_cycles = simple_cycles G
                      in filter (\<lambda>c. 3 \<le> length c \<and> length c \<le> 5) all_cycles)"


section \<open>Fan patterns\<close>

text \<open>
  A \<^verbatim>\<open>defaultdict(list)\<close> is an association list in insertion order. Both
  \<^verbatim>\<open>d[k].append(v)\<close> and \<^verbatim>\<open>d[k].extend(vs)\<close> create the key at the end when
  it is absent and grow its list in place when it is present.
\<close>

type_synonym pattern_dict = "(string \<times> string list) list"

fun dict_extend :: "string \<Rightarrow> string list \<Rightarrow> pattern_dict \<Rightarrow> pattern_dict" where
  "dict_extend k vs [] = [(k, vs)]"
| "dict_extend k vs ((k', ws) # d) =
     (if k' = k then (k', ws @ vs) # d else (k', ws) # dict_extend k vs d)"

definition dict_get :: "pattern_dict \<Rightarrow> string \<Rightarrow> string list" where
  "dict_get d k = (case map_of d k of None \<Rightarrow> [] | Some vs \<Rightarrow> vs)"

fun fan_loop :: "graph \<Rightarrow> string list \<Rightarrow> pattern_dict \<Rightarrow> pattern_dict" where
  "fan_loop G [] fan_patterns = fan_patterns"
| "fan_loop G (node # rest) fan_patterns =
     (let fp1 = (if in_degree G node \<ge> 10
                 then dict_extend node [''fan_in''] fan_patterns else fan_patterns);
          fp2 = (if out_degree G node \<ge> 10
                 then dict_extend node [''fan_out''] fp1 else fp1)
      in fan_loop G rest fp2)"

definition detect_fan_patterns :: "graph \<Rightarrow> pattern_dict" where
  "detect_fan_patterns G = fan_loop G (nodes G) []"


section \<open>Scoring\<close>

text \<open>
  The score is returned as \<^verbatim>\<open>float(min(score, 100))\<close>; the sum is an integer of
  at most 90, which the conversion keeps exactly, so the model keeps the integer.
\<close>

definition calculate_score :: "string list \<Rightarrow> int" where
  "calculate_score patterns =
     (let score = 0;
          score = (if list_ex (\<lambda>p. str_in ''cycle'' p) patterns then score + 50 else score);
          score = (if ''fan_in'' \<in> set patterns then score + 20 else score);
          score = (if ''fan_out'' \<in> set patterns then score + 20 else score)
      in min score 100)"


section \<open>The upload route\<close>

datatype error = Invalid_CSV_format | KeyError string

text \<open>
  The parsed CSV: the column names and the rows, each row holding one cell per
  column. \<^verbatim>\<open>row[c]\<close> raises \<^verbatim>\<open>KeyError\<close> for a column the frame does not have.
\<close>

record dataframe =
  columns :: "string list"
  rows :: "string list list"

definition required_columns :: "string list" where
  "required_columns = [''transaction_id'', ''sender_id'', ''receiver_id'', ''amount'', ''timestamp'']"

definition row_get :: "string list \<Rightarrow> string list \<Rightarrow> string \<Rightarrow> error + string" where
  "row_get cols row c = (case map_of (zip cols row) c of None \<Rightarrow> Inl (KeyError c) | Some x \<Rightarrow> Inr x)"

fun add_rows :: "string list \<Rightarrow> string list list \<Rightarrow> graph \<Rightarrow> error + graph" where
  "add_rows cols [] G = Inr G"
| "add_rows cols (row # rest) G =
     (case row_get cols row ''sender_id'' of
        Inl e \<Rightarrow> Inl e
      | Inr s \<Rightarrow>
          (case row_get cols row ''receiver_id'' of
             Inl e \<Rightarrow> Inl e
           | Inr r \<Rightarrow> add_rows cols rest (add_edge s r G)))"

text \<open>\<^verbatim>\<open>risk_score\<close> is the float 95.0, kept as its integer value.\<close>

record fraud_ring =
  ring_id :: string
  member_accounts :: "string list"
  pattern_type :: string
  risk_score :: int

text \<open>
  The account's own \<^verbatim>\<open>"ring_id"\<close> entry is the field \<open>account_ring_id\<close>, two
  records cannot share a field name.
\<close>

record suspicious_account =
  account_id :: string
  suspicion_score :: int
  detected_patterns :: "string list"
  account_ring_id :: string

text \<open>The summary without \<^verbatim>\<open>processing_time_seconds\<close>, a wall-clock reading.\<close>

record summary =
  total_accounts_analyzed :: nat
  suspicious_accounts_flagged :: nat
  fraud_rings_detected :: nat

record report =
  suspicious_accounts :: "suspicious_account list"
  fraud_rings :: "fraud_ring list"
  summary :: summary

text \<open>The loop over the cycles: one ring per cycle, one label per member.\<close>

fun ring_loop ::
  "string list list \<Rightarrow> nat \<Rightarrow> fraud_ring list \<Rightarrow> pattern_dict \<Rightarrow> fraud_ring list \<times> pattern_dict"
where
  "ring_loop [] ring_counter rings suspicious_dict = (rings, suspicious_dict)"
| "ring_loop (cycle # rest) ring_counter rings suspicious_dict =
     (let rid = ''RING_'' @ fmt_03d ring_counter;
          rings' = rings @ [\<lparr>ring_id = rid, member_accounts = cycle,
                             pattern_type = ''cycle'', risk_score = 95\<rparr>];
          suspicious_dict' =
            fold (\<lambda>account d. dict_extend account [''cycle_length_'' @ str_nat (length cycle)] d)
                 cycle suspicious_dict
      in ring_loop rest (ring_counter + 1) rings' suspicious_dict')"

definition merge_fan :: "pattern_dict \<Rightarrow> pattern_dict \<Rightarrow> pattern_dict" where
  "merge_fan fan_patterns suspicious_dict =
     fold (\<lambda>(account, patterns) d. dict_extend account patterns d) fan_patterns suspicious_dict"

text \<open>The inner loop with \<^verbatim>\<open>break\<close>: the first ring holding the account.\<close>

fun find_ring_id :: "string \<Rightarrow> fraud_ring list \<Rightarrow> string" where
  "find_ring_id account [] = ''N/A''"
| "find_ring_id account (ring # rest) =
     (if account \<in> set (member_accounts ring) then ring_id ring
      else find_ring_id account rest)"

text \<open>
  \<^verbatim>\<open>list(set(patterns))\<close> lists the distinct labels in the iteration order of a
  set of strings, which Python leaves open (it follows the string hashes of the
  running process). The route takes that listing as the parameter \<open>set_order\<close>.
\<close>

definition set_listing :: "(string list \<Rightarrow> string list) \<Rightarrow> bool" where
  "set_listing set_order = (\<forall>ps. distinct (set_order ps) \<and> set (set_order ps) = set ps)"

definition make_account ::
  "(string list \<Rightarrow> string list) \<Rightarrow> fraud_ring list \<Rightarrow> string \<times> string list \<Rightarrow> suspicious_account"
where
  "make_account set_order rings entry =
     (case entry of (account, patterns) \<Rightarrow>
        \<lparr>account_id = account,
         suspicion_score = calculate_score patterns,
         detected_patterns = set_order patterns,
         account_ring_id = find_ring_id account rings\<rparr>)"

text \<open>
  \<^verbatim>\<open>sorted(xs, key=f, reverse=True)\<close>: the list is reversed, sorted by a stable
  sort, and reversed again, so equal keys keep the order they had in \<open>xs\<close>.
\<close>

definition sorted_reverse :: "('a \<Rightarrow> int) \<Rightarrow> 'a list \<Rightarrow> 'a list" where
  "sorted_reverse f xs = rev (sort_key f (rev xs))"

text \<open>Lines 79 to 146: from the graph and its cycles to the report.\<close>

definition assemble ::
  "(string list \<Rightarrow> string list) \<Rightarrow> graph \<Rightarrow> string list list \<Rightarrow> report"
where
  "assemble set_order G cycles =
     (case ring_loop cycles 1 [] [] of (rings, sd) \<Rightarrow>
        (let sd' = merge_fan (detect_fan_patterns G) sd;
             accounts = sorted_reverse suspicion_score (map (make_account set_order rings) sd')
         in \<lparr>suspicious_accounts = accounts,
             fraud_rings = rings,
             summary = \<lparr>total_accounts_analyzed = length (nodes G),
                        suspicious_accounts_flagged = length accounts,
                        fraud_rings_detected = length rings\<rparr>\<rparr>))"

text \<open>
  The route itself, with the file \<^verbatim>\<open>outputs/result.json\<close> as explicit state: the
  report last written, if any. A rejected upload and a raised exception leave it
  as it was.
\<close>

definition upload_file ::
  "(string list \<Rightarrow> string list) \<Rightarrow> dataframe \<Rightarrow> report option \<Rightarrow> (error + report) \<times> report option"
where
  "upload_file set_order df result_file =
     (if \<not> set required_columns \<subseteq> set (columns df) then (Inl Invalid_CSV_format, result_file)
      else (case add_rows (columns df) (rows df) empty_graph of
              Inl e \<Rightarrow> (Inl e, result_file)
            | Inr G \<Rightarrow>
                (let result_json = assemble set_order G (detect_cycles G)
                 in (Inr result_json, Some result_json))))"




section \<open>Auxiliary notions and example inputs\<close>

text \<open>The label a cycle gives to its members, and the ring made of the \<open>i\<close>-th cycle.\<close>

definition cycle_label :: "string list \<Rightarrow> string" where
  "cycle_label c = ''cycle_length_'' @ str_nat (length c)"

definition ring_of :: "nat \<Rightarrow> string list \<Rightarrow> fraud_ring" where
  "ring_of i c = \<lparr>ring_id = ''RING_'' @ fmt_03d i, member_accounts = c,
                  pattern_type = ''cycle'', risk_score = 95\<rparr>"

definition label_members :: "string \<Rightarrow> string list \<Rightarrow> pattern_dict \<Rightarrow> pattern_dict" where
  "label_members l c d = fold (\<lambda>account d. dict_extend account [l] d) c d"

text \<open>A walk along the edges, and a walk that an edge closes.\<close>

fun is_walk :: "(string \<times> string) list \<Rightarrow> string list \<Rightarrow> bool" where
  "is_walk E [] = True"
| "is_walk E [x] = True"
| "is_walk E (x # y # r) = ((x, y) \<in> set E \<and> is_walk E (y # r))"

definition closed_walk :: "(string \<times> string) list \<Rightarrow> string list \<Rightarrow> bool" where
  "closed_walk E c = (c \<noteq> [] \<and> is_walk E c \<and> (last c, hd c) \<in> set E)"

text \<open>A graph with a self-loop at A, the 2-cycle A, B and the 3-cycle A, B, C.\<close>

definition loops_graph :: graph where
  "loops_graph =
     add_edge ''C'' ''A'' (add_edge ''B'' ''C'' (add_edge ''A'' ''B''
       (add_edge ''B'' ''A'' (add_edge ''A'' ''A'' empty_graph))))"


text \<open>The labels the degree test gives one node.\<close>

definition fan_labels :: "graph \<Rightarrow> string \<Rightarrow> string list" where
  "fan_labels G n = (if in_degree G n \<ge> 10 then [''fan_in''] else []) @
                    (if out_degree G n \<ge> 10 then [''fan_out''] else [])"

text \<open>
  The dictionary \<^verbatim>\<open>suspicious_dict\<close> as it stands when the accounts are built, and
  the order of its keys: ring members in detection order, then the hubs in node order.
\<close>

definition evidence_dict :: "graph \<Rightarrow> string list list \<Rightarrow> pattern_dict" where
  "evidence_dict G cycles = merge_fan (detect_fan_patterns G) (snd (ring_loop cycles 1 [] []))"

definition evidence_order :: "graph \<Rightarrow> string list list \<Rightarrow> string list" where
  "evidence_order G cycles =
     fold add_node (concat cycles @ filter (\<lambda>n. fan_labels G n \<noteq> []) (nodes G)) []"

text \<open>The labels the scorer is given.\<close>

definition cycle_labels :: "string set" where
  "cycle_labels = {''cycle_length_3'', ''cycle_length_4'', ''cycle_length_5''}"

definition valid_labels :: "string set" where
  "valid_labels = cycle_labels \<union> {''fan_in'', ''fan_out''}"

definition two_cycles :: "string list list" where
  "two_cycles = [[''A'', ''B'', ''C''], [''D'', ''E'', ''F'', ''G'']]"

text \<open>
  The transfers the rows hold, in row order; the distinct senders to an account and the
  distinct receivers from it; and the accounts in the order of their first appearance in
  the rows, sender before receiver.
\<close>

definition transfer_of :: "string list \<Rightarrow> string list \<Rightarrow> (string \<times> string) list" where
  "transfer_of cols row =
     (case (row_get cols row ''sender_id'', row_get cols row ''receiver_id'') of
        (Inr s, Inr r) \<Rightarrow> [(s, r)] | _ \<Rightarrow> [])"

definition transfers :: "dataframe \<Rightarrow> (string \<times> string) list" where
  "transfers df = concat (map (transfer_of (columns df)) (rows df))"

definition senders_to :: "dataframe \<Rightarrow> string \<Rightarrow> string set" where
  "senders_to df n = fst ` {p \<in> set (transfers df). snd p = n}"

definition receivers_from :: "dataframe \<Rightarrow> string \<Rightarrow> string set" where
  "receivers_from df n = snd ` {p \<in> set (transfers df). fst p = n}"

definition first_appearance :: "dataframe \<Rightarrow> string list" where
  "first_appearance df = fold add_node (concat (map (\<lambda>p. [fst p, snd p]) (transfers df))) []"

text \<open>
  Adding a list of edges in order.
\<close>

definition add_edges :: "(string \<times> string) list \<Rightarrow> graph \<Rightarrow> graph" where
  "add_edges ps G = fold (\<lambda>p. add_edge (fst p) (snd p)) ps G"

text \<open>
  Accounts of equal score stand in the relative order that \<open>order\<close> gives them: for
  each score, the accounts that have it, read off the account list, are the sub-list of
  \<open>order\<close> on those accounts.
\<close>

definition ties_follow :: "string list \<Rightarrow> suspicious_account list \<Rightarrow> bool" where
  "ties_follow order accounts =
     (\<forall>s \<in> set (map suspicion_score accounts).
        map account_id (filter (\<lambda>a. suspicion_score a = s) accounts) =
        filter (\<lambda>x. x \<in> set (map account_id (filter (\<lambda>a. suspicion_score a = s) accounts))) order)"

text \<open>
  Example inputs. A row of a frame with the five required columns.
\<close>

definition tx :: "string \<Rightarrow> string \<Rightarrow> string list" where
  "tx s r = [''T'', s, r, ''100.0'', ''2024-01-01 00:00:00'']"

text \<open>
  A 3-cycle A, B, C whose accounts first appear, as senders to X, in the order A, C, B.
\<close>

definition tie_frame :: dataframe where
  "tie_frame = \<lparr>columns = required_columns,
                 rows = [tx ''A'' ''X'', tx ''C'' ''X'', tx ''B'' ''X'',
                         tx ''A'' ''B'', tx ''B'' ''C'', tx ''C'' ''A'']\<rparr>"

definition tie_graph :: graph where
  "tie_graph = \<lparr>nodes = [''A'', ''X'', ''C'', ''B''],
                 edges = [(''A'', ''X''), (''C'', ''X''), (''B'', ''X''),
                          (''A'', ''B''), (''B'', ''C''), (''C'', ''A'')]\<rparr>"

text \<open>
  The entries of the example reports.
\<close>

definition ring_001 :: "string list \<Rightarrow> fraud_ring" where
  "ring_001 members = \<lparr>ring_id = ''RING_001'', member_accounts = members,
                        pattern_type = ''cycle'', risk_score = 95\<rparr>"

definition ring_account :: "string \<Rightarrow> suspicious_account" where
  "ring_account a = \<lparr>account_id = a, suspicion_score = 50,
                      detected_patterns = [''cycle_length_3''], account_ring_id = ''RING_001''\<rparr>"

definition tie_report :: report where
  "tie_report =
     \<lparr>suspicious_accounts = [ring_account ''A'', ring_account ''B'', ring_account ''C''],
      fraud_rings = [ring_001 [''A'', ''B'', ''C'']],
      summary = \<lparr>total_accounts_analyzed = 4, suspicious_accounts_flagged = 3,
                 fraud_rings_detected = 1\<rparr>\<rparr>"

text \<open>
  X lies on the 3-cycle X, B, C and sends to ten accounts (one of them twice); H
  receives from ten accounts and lies on no cycle.
\<close>

definition hub_frame :: dataframe where
  "hub_frame = \<lparr>columns = required_columns,
                 rows = [tx ''X'' ''B'', tx ''B'' ''C'', tx ''C'' ''X'',
                         tx ''X'' ''n1'', tx ''X'' ''n2'', tx ''X'' ''n3'', tx ''X'' ''n4'',
                         tx ''X'' ''n5'', tx ''X'' ''n6'', tx ''X'' ''n7'', tx ''X'' ''n8'',
                         tx ''X'' ''n9'', tx ''X'' ''n9'',
                         tx ''n1'' ''H'', tx ''n2'' ''H'', tx ''n3'' ''H'', tx ''n4'' ''H'',
                         tx ''n5'' ''H'', tx ''n6'' ''H'', tx ''n7'' ''H'', tx ''n8'' ''H'',
                         tx ''n9'' ''H'', tx ''B'' ''H'']\<rparr>"

definition hub_graph :: graph where
  "hub_graph =
     \<lparr>nodes = [''X'', ''B'', ''C'', ''n1'', ''n2'', ''n3'', ''n4'', ''n5'', ''n6'', ''n7'',
               ''n8'', ''n9'', ''H''],
      edges = [(''X'', ''B''), (''B'', ''C''), (''C'', ''X''), (''X'', ''n1''),
               (''X'', ''n2''), (''X'', ''n3''), (''X'', ''n4''), (''X'', ''n5''),
               (''X'', ''n6''), (''X'', ''n7''), (''X'', ''n8''), (''X'', ''n9''),
               (''n1'', ''H''), (''n2'', ''H''), (''n3'', ''H''), (''n4'', ''H''),
               (''n5'', ''H''), (''n6'', ''H''), (''n7'', ''H''), (''n8'', ''H''),
               (''n9'', ''H''), (''B'', ''H'')]\<rparr>"

definition hub_account :: "string list \<Rightarrow> suspicious_account" where
  "hub_account patterns = \<lparr>account_id = ''X'', suspicion_score = 70,
                            detected_patterns = patterns, account_ring_id = ''RING_001''\<rparr>"

definition sink_account :: suspicious_account where
  "sink_account = \<lparr>account_id = ''H'', suspicion_score = 20,
                    detected_patterns = [''fan_in''], account_ring_id = ''N/A''\<rparr>"

definition hub_report :: "string list \<Rightarrow> report" where
  "hub_report patterns =
     \<lparr>suspicious_accounts = [hub_account patterns, ring_account ''B'', ring_account ''C'',
                              sink_account],
      fraud_rings = [ring_001 [''X'', ''B'', ''C'']],
      summary = \<lparr>total_accounts_analyzed = 13, suspicious_accounts_flagged = 4,
                 fraud_rings_detected = 1\<rparr>\<rparr>"

text \<open>
  A frame without the column timestamp.
\<close>

definition short_frame :: dataframe where
  "short_frame = \<lparr>columns = [''transaction_id'', ''sender_id'', ''receiver_id'', ''amount''],
                   rows = [[''T'', ''A'', ''B'', ''100.0'']]\<rparr>"

text \<open>
  Ten transfers between the same two accounts.
\<close>

definition repeat_frame :: dataframe where
  "repeat_frame = \<lparr>columns = required_columns, rows = replicate 10 (tx ''Y'' ''Z'')\<rparr>"

definition repeat_graph :: graph where
  "repeat_graph = \<lparr>nodes = [''Y'', ''Z''], edges = [(''Y'', ''Z'')]\<rparr>"




text \<open>
  Two 3-cycles through X: X, B, C and X, D, E.
\<close>

definition pair_frame :: dataframe where
  "pair_frame = \<lparr>columns = required_columns,
                  rows = [tx ''X'' ''B'', tx ''B'' ''C'', tx ''C'' ''X'',
                          tx ''X'' ''D'', tx ''D'' ''E'', tx ''E'' ''X'']\<rparr>"

definition pair_graph :: graph where
  "pair_graph = \<lparr>nodes = [''X'', ''B'', ''C'', ''D'', ''E''],
                  edges = [(''X'', ''B''), (''B'', ''C''), (''C'', ''X''),
                           (''X'', ''D''), (''D'', ''E''), (''E'', ''X'')]\<rparr>"






section \<open>C1: the emitted cycles\<close>

lemma in_cycle_search:
  "c \<in> set (cycle_search E s avail path v) \<longleftrightarrow>
     (\<exists>w \<in> set (successors E v).
        (w = s \<and> c = rev path) \<or>
        (w \<noteq> s \<and> w \<in> set avail \<and> c \<in> set (cycle_search E s (removeAll w avail) (w # path) w)))"
  by (subst cycle_search.simps) auto

lemma cycle_search_distinct:
  "distinct path \<Longrightarrow> s \<in> set path \<Longrightarrow> set path \<inter> set avail \<subseteq> {s}
   \<Longrightarrow> c \<in> set (cycle_search E s avail path v) \<Longrightarrow> distinct c"
proof (induction E s avail path v rule: cycle_search.induct)
  case (1 E s avail path v)
  from "1.prems"(4) obtain w where w: "w \<in> set (successors E v)"
    and c: "(w = s \<and> c = rev path) \<or>
        (w \<noteq> s \<and> w \<in> set avail \<and> c \<in> set (cycle_search E s (removeAll w avail) (w # path) w))"
    unfolding in_cycle_search [of c E s avail path v] by blast
  show ?case
  proof (cases "w = s")
    case True
    with c "1.prems"(1) show ?thesis by simp
  next
    case False
    with c have wa: "w \<in> set avail"
      and c': "c \<in> set (cycle_search E s (removeAll w avail) (w # path) w)"
      by auto
    from False wa "1.prems"(3) have "w \<notin> set path" by auto
    with "1.prems" have "distinct (w # path)" "s \<in> set (w # path)"
      "set (w # path) \<inter> set (removeAll w avail) \<subseteq> {s}" by auto
    with "1.IH"[OF w False wa] c' show ?thesis by blast
  qed
qed

lemma cycles_from_distinct: "c \<in> set (cycles_from E ns) \<Longrightarrow> distinct c"
  by (induction ns) (auto dest: cycle_search_distinct[rotated 3])

text \<open>
  C1: every cycle the detector emits has between 3 and 5 nodes and repeats no
  account; so a self-loop (one node) and a 2-cycle (two nodes) are never emitted,
  and the empty graph gives the empty list.
\<close>

theorem detect_cycles_window_simple:
  "(\<forall>c \<in> set (detect_cycles G). 3 \<le> length c \<and> length c \<le> 5 \<and> distinct c)
   \<and> [v] \<notin> set (detect_cycles G) \<and> [u, w] \<notin> set (detect_cycles G)
   \<and> detect_cycles empty_graph = []"
  by (auto simp: detect_cycles_def simple_cycles_def empty_graph_def dest: cycles_from_distinct)

theorem detect_cycles_window_simple_witness:
  "[''A'', ''B'', ''C''] \<in> set (detect_cycles loops_graph)
   \<and> 3 \<le> length [''A'', ''B'', ''C''] \<and> length [''A'', ''B'', ''C''] \<le> 5
   \<and> distinct [''A'', ''B'', ''C'']
   \<and> [''A''] \<notin> set (detect_cycles loops_graph)
   \<and> [''A'', ''B''] \<notin> set (detect_cycles loops_graph)"
proof -
  have "detect_cycles loops_graph = [[''A'', ''B'', ''C'']]"
    by code_simp
  with detect_cycles_window_simple [of loops_graph "''A''" "''A''" "''B''"] show ?thesis
    by simp
qed

section \<open>The enumerator against the graph\<close>

text \<open>
  What validates the model of the enumerator: every emitted cycle is a closed walk along
  the edges of the graph.
\<close>

lemma is_walk_snoc:
  "is_walk E (xs @ [w]) \<longleftrightarrow> is_walk E xs \<and> (xs = [] \<or> (last xs, w) \<in> set E)"
  by (induction E xs rule: is_walk.induct) auto

lemma successors_edge: "w \<in> set (successors E v) \<longleftrightarrow> (v, w) \<in> set E"
  by (force simp: successors_def)

lemma cycle_search_walk:
  "path \<noteq> [] \<Longrightarrow> hd path = v \<Longrightarrow> last path = s \<Longrightarrow> is_walk E (rev path)
   \<Longrightarrow> c \<in> set (cycle_search E s avail path v) \<Longrightarrow> closed_walk E c"
proof (induction E s avail path v rule: cycle_search.induct)
  case (1 E s avail path v)
  from "1.prems"(5) obtain w where w: "w \<in> set (successors E v)"
    and c: "(w = s \<and> c = rev path) \<or>
        (w \<noteq> s \<and> w \<in> set avail \<and> c \<in> set (cycle_search E s (removeAll w avail) (w # path) w))"
    unfolding in_cycle_search [of c E s avail path v] by blast
  from w have e: "(v, w) \<in> set E" by (simp add: successors_edge)
  show ?case
  proof (cases "w = s")
    case True
    with c "1.prems" e show ?thesis
      by (simp add: closed_walk_def last_rev hd_rev)
  next
    case False
    with c have wa: "w \<in> set avail"
      and c': "c \<in> set (cycle_search E s (removeAll w avail) (w # path) w)"
      by auto
    from "1.prems" e have "is_walk E (rev (w # path))"
      by (simp add: is_walk_snoc last_rev)
    with "1.IH"[OF w False wa _ _ _ _ c'] "1.prems" show ?thesis by simp
  qed
qed

lemma cycles_from_walk: "c \<in> set (cycles_from E ns) \<Longrightarrow> closed_walk E c"
  by (induction ns) (auto dest: cycle_search_walk[rotated 4])

lemma detect_cycles_closed_walk:
  "c \<in> set (detect_cycles G) \<Longrightarrow> closed_walk (edges G) c"
  by (auto simp: detect_cycles_def simple_cycles_def dest: cycles_from_walk)

text \<open>
  Conversely, every simple cycle of the graph is emitted, from its earliest node.
\<close>

lemma cycle_search_complete:
  "distinct q \<Longrightarrow> set q \<subseteq> set avail \<Longrightarrow> s \<notin> set q \<Longrightarrow> is_walk E (v # q)
   \<Longrightarrow> (last (v # q), s) \<in> set E
   \<Longrightarrow> rev path @ q \<in> set (cycle_search E s avail path v)"
proof (induction q arbitrary: avail path v)
  case Nil
  then show ?case
    by (subst in_cycle_search) (auto simp: successors_edge)
next
  case (Cons w q)
  from Cons.prems have e: "(v, w) \<in> set E" and ws: "w \<noteq> s" and wa: "w \<in> set avail" by auto
  from Cons.prems have "rev (w # path) @ q \<in> set (cycle_search E s (removeAll w avail) (w # path) w)"
    by (intro Cons.IH) auto
  with e ws wa show ?case
    by (subst in_cycle_search) (auto simp: successors_edge)
qed

lemma cycles_from_append:
  "set (cycle_search E s rest [s] s) \<subseteq> set (cycles_from E (pre @ s # rest))"
  by (induction pre) auto

lemma closed_walk_rotate1:
  assumes "closed_walk E c"
  shows "closed_walk E (rotate1 c)"
proof (cases c)
  case Nil
  with assms show ?thesis by (simp add: closed_walk_def)
next
  case (Cons x xs)
  show ?thesis
  proof (cases xs)
    case Nil
    with Cons assms show ?thesis by (simp add: closed_walk_def)
  next
    case (Cons y ys)
    with \<open>c = x # xs\<close> assms have w: "is_walk E (y # ys)" and l: "(last (y # ys), x) \<in> set E"
      and e: "(x, y) \<in> set E"
      by (simp_all add: closed_walk_def)
    from w l have "is_walk E ((y # ys) @ [x])"
      unfolding is_walk_snoc by simp
    with e Cons \<open>c = x # xs\<close> show ?thesis
      by (simp add: closed_walk_def)
  qed
qed

lemma closed_walk_rotate: "closed_walk E c \<Longrightarrow> closed_walk E (rotate n c)"
  by (induction n) (simp_all add: closed_walk_rotate1)

lemma simple_cycles_complete:
  assumes "closed_walk (edges G) c" and "distinct c" and "set c \<subseteq> set (nodes G)"
  shows "\<exists>n. rotate n c \<in> set (simple_cycles G)"
proof -
  from assms(1) have ne: "c \<noteq> []" by (simp add: closed_walk_def)
  let ?pre = "takeWhile (\<lambda>x. x \<notin> set c) (nodes G)"
  let ?suf = "dropWhile (\<lambda>x. x \<notin> set c) (nodes G)"
  from ne assms(3) have "\<exists>x \<in> set (nodes G). x \<in> set c"
    by (cases c) auto
  then have "?suf \<noteq> []" by (simp add: dropWhile_eq_Nil_conv)
  then obtain s rest where suf: "?suf = s # rest" by (cases ?suf) auto
  then have sc: "s \<in> set c" using hd_dropWhile[of "\<lambda>x. x \<notin> set c" "nodes G"] by force
  have split: "nodes G = ?pre @ s # rest" using suf takeWhile_dropWhile_id[of "\<lambda>x. x \<notin> set c" "nodes G"] by simp
  have pre: "set ?pre \<inter> set c = {}" by (auto dest: set_takeWhileD)
  from sc obtain ys zs where c: "c = ys @ s # zs" by (auto simp: in_set_conv_decomp)
  let ?q = "zs @ ys"
  have rot: "rotate (length ys) c = s # ?q" by (simp add: c rotate_append)
  from closed_walk_rotate[OF assms(1), of "length ys"] rot
  have cw: "closed_walk (edges G) (s # ?q)" by simp
  from assms(2) c have d: "distinct ?q" "s \<notin> set ?q" by auto
  have "set ?q \<subseteq> set rest"
  proof
    fix x assume x: "x \<in> set ?q"
    with c have xc: "x \<in> set c" by auto
    with assms(3) have "x \<in> set (nodes G)" by blast
    with split have "x \<in> set ?pre \<or> x = s \<or> x \<in> set rest" by (metis Un_iff set_ConsD set_append)
    with pre xc d(2) x show "x \<in> set rest" by blast
  qed
  with d cw have "rev [s] @ ?q \<in> set (cycle_search (edges G) s rest [s] s)"
    by (intro cycle_search_complete) (auto simp: closed_walk_def)
  with cycles_from_append[of "edges G" s rest ?pre] split rot
  have "rotate (length ys) c \<in> set (simple_cycles G)"
    by (auto simp: simple_cycles_def)
  then show ?thesis by blast
qed

section \<open>The evidence dictionary\<close>

lemma add_node_set [simp]: "set (add_node n ns) = insert n (set ns)"
  by (auto simp: add_node_def)

lemma add_node_distinct [simp]: "distinct (add_node n ns) = distinct ns"
  by (auto simp: add_node_def)

lemma fold_add_node_set [simp]: "set (fold add_node xs ns) = set xs \<union> set ns"
  by (induction xs arbitrary: ns) auto

lemma fold_add_node_distinct [simp]: "distinct (fold add_node xs ns) = distinct ns"
  by (induction xs arbitrary: ns) auto

lemma dict_extend_keys: "map fst (dict_extend k vs d) = add_node k (map fst d)"
  by (induction d) (force simp: add_node_def)+

lemma dict_extend_map_of:
  "map_of (dict_extend k vs d) k' =
     (if k' = k then Some (dict_get d k @ vs) else map_of d k')"
  by (induction d) (auto simp: dict_get_def)

lemma dict_get_extend:
  "dict_get (dict_extend k vs d) k' = (if k' = k then dict_get d k @ vs else dict_get d k')"
  by (simp add: dict_get_def dict_extend_map_of)

lemma dict_get_entry:
  "distinct (map fst d) \<Longrightarrow> (k, vs) \<in> set d \<Longrightarrow> dict_get d k = vs"
  by (simp add: dict_get_def)

lemma dict_get_absent: "k \<notin> set (map fst d) \<Longrightarrow> dict_get d k = []"
  by (simp add: dict_get_def map_of_eq_None_iff[THEN iffD2])

lemma label_members_keys: "map fst (label_members l c d) = fold add_node c (map fst d)"
  unfolding label_members_def
  by (induction c arbitrary: d) (simp_all add: dict_extend_keys)

lemma label_members_get:
  "set (dict_get (label_members l c d) a) =
     set (dict_get d a) \<union> (if a \<in> set c then {l} else {})"
  unfolding label_members_def
  by (induction c arbitrary: d) (auto simp: dict_get_extend)

lemma ring_loop_snd:
  "snd (ring_loop cycles n rings sd) = fold (\<lambda>c. label_members (cycle_label c) c) cycles sd"
  by (induction cycles arbitrary: n rings sd)
     (simp_all add: Let_def label_members_def cycle_label_def)

lemma ring_loop_fst:
  "fst (ring_loop cycles n rings sd) =
     rings @ map (\<lambda>i. ring_of (n + i) (cycles ! i)) [0..<length cycles]"
proof (induction cycles arbitrary: n rings sd)
  case Nil
  then show ?case by simp
next
  case (Cons c cs)
  have "map (\<lambda>i. ring_of (n + i) ((c # cs) ! i)) [0..<length (c # cs)] =
        ring_of n c # map (\<lambda>i. ring_of (Suc n + i) (cs ! i)) [0..<length cs]"
    by (simp add: upt_conv_Cons map_Suc_upt[symmetric] del: upt_Suc)
  with Cons.IH show ?case
    by (simp add: Let_def ring_of_def)
qed

lemma cycles_keys:
  "map fst (fold (\<lambda>c. label_members (cycle_label c) c) cycles sd) =
     fold add_node (concat cycles) (map fst sd)"
  by (induction cycles arbitrary: sd) (simp_all add: label_members_keys)

lemma cycles_get:
  "set (dict_get (fold (\<lambda>c. label_members (cycle_label c) c) cycles sd) a) =
     set (dict_get sd a) \<union> {cycle_label c |c. c \<in> set cycles \<and> a \<in> set c}"
  by (induction cycles arbitrary: sd) (auto simp: label_members_get)

lemma merge_fan_keys:
  "map fst (merge_fan fp sd) = fold add_node (map fst fp) (map fst sd)"
  unfolding merge_fan_def
  by (induction fp arbitrary: sd) (auto simp: dict_extend_keys)

lemma merge_fan_get:
  "distinct (map fst fp) \<Longrightarrow>
   dict_get (merge_fan fp sd) a = dict_get sd a @ dict_get fp a"
  unfolding merge_fan_def
proof (induction fp arbitrary: sd)
  case Nil
  then show ?case by (simp add: dict_get_def)
next
  case (Cons e fp)
  obtain k vs where e: "e = (k, vs)" by (cases e)
  from Cons.prems e have k: "k \<notin> set (map fst fp)" and d: "distinct (map fst fp)" by auto
  show ?case
  proof (cases "a = k")
    case True
    with k have "dict_get fp a = []" by (simp add: dict_get_absent)
    moreover from True have "dict_get (e # fp) a = vs" by (simp add: dict_get_def e)
    ultimately show ?thesis using Cons.IH[OF d] True e by (simp add: dict_get_extend)
  next
    case False
    then have "dict_get (e # fp) a = dict_get fp a" by (simp add: dict_get_def e)
    then show ?thesis using Cons.IH[OF d] False e by (simp add: dict_get_extend)
  qed
qed

section \<open>Fan patterns: keys and labels\<close>

lemma add_node_idem: "add_node n (add_node n ks) = add_node n ks"
  by (simp add: add_node_def)

lemma dict_get_Nil: "dict_get [] a = []"
  by (simp add: dict_get_def)

lemma fan_loop_keys:
  "map fst (fan_loop G ns fp) = fold add_node (filter (\<lambda>n. fan_labels G n \<noteq> []) ns) (map fst fp)"
proof (induction ns arbitrary: fp)
  case Nil
  show ?case by simp
next
  case (Cons n ns)
  show ?case
    by (simp add: Cons.IH Let_def fan_labels_def dict_extend_keys add_node_idem)
qed

lemma fan_loop_get:
  "distinct ns \<Longrightarrow>
   dict_get (fan_loop G ns fp) a =
     dict_get fp a @ (if a \<in> set ns then fan_labels G a else [])"
proof (induction ns arbitrary: fp)
  case Nil
  show ?case by simp
next
  case (Cons n ns)
  then have d: "distinct ns" and n: "n \<notin> set ns" by auto
  show ?case
    using n by (auto simp: Cons.IH[OF d] Let_def fan_labels_def dict_get_extend)
qed

lemma detect_fan_patterns_keys:
  "map fst (detect_fan_patterns G) = fold add_node (filter (\<lambda>n. fan_labels G n \<noteq> []) (nodes G)) []"
  by (simp add: detect_fan_patterns_def fan_loop_keys)

lemma detect_fan_patterns_distinct: "distinct (map fst (detect_fan_patterns G))"
  by (simp add: detect_fan_patterns_keys)

lemma detect_fan_patterns_get:
  "distinct (nodes G) \<Longrightarrow>
   dict_get (detect_fan_patterns G) a = (if a \<in> set (nodes G) then fan_labels G a else [])"
  by (simp add: detect_fan_patterns_def fan_loop_get dict_get_Nil)

lemma fan_loop_get_set:
  "set (dict_get (fan_loop G ns fp) a) =
     set (dict_get fp a) \<union> (if a \<in> set ns then set (fan_labels G a) else {})"
proof (induction ns arbitrary: fp)
  case Nil
  show ?case by simp
next
  case (Cons n ns)
  show ?case
    by (auto simp: Cons.IH Let_def fan_labels_def dict_get_extend)
qed

section \<open>Sorting\<close>

lemma sorted_reverse_set: "set (sorted_reverse f xs) = set xs"
  by (simp add: sorted_reverse_def)


lemma sorted_reverse_desc: "sorted_wrt (\<lambda>a b. f a \<ge> f b) (sorted_reverse f xs)"
proof -
  have "sorted (map f (sort_key f (rev xs)))" by simp
  then have "sorted_wrt (\<lambda>a b. f a \<le> f b) (sort_key f (rev xs))"
    by (simp add: sorted_wrt_map)
  then show ?thesis
    by (simp add: sorted_reverse_def sorted_wrt_rev)
qed

lemma sorted_reverse_stable:
  "filter (\<lambda>a. f a = k) (sorted_reverse f xs) = filter (\<lambda>a. f a = k) xs"
  by (simp add: sorted_reverse_def rev_filter[symmetric] sort_key_stable)

lemma map_filter_distinct:
  assumes "distinct (map f xs)"
  shows "map f (filter P xs) = filter (\<lambda>x. x \<in> set (map f (filter P xs))) (map f xs)"
proof -
  from assms have inj: "inj_on f (set xs)" by (simp add: distinct_map)
  have "filter (\<lambda>x. f x \<in> f ` set (filter P xs)) xs = filter P xs"
  proof (rule filter_cong[OF refl])
    fix x assume x: "x \<in> set xs"
    show "(f x \<in> f ` set (filter P xs)) = P x"
    proof
      assume "f x \<in> f ` set (filter P xs)"
      then obtain z where z: "z \<in> set xs" "P z" "f x = f z" by auto
      with inj x have "x = z" by (auto dest: inj_onD)
      with z show "P x" by simp
    next
      assume "P x"
      with x show "f x \<in> f ` set (filter P xs)" by simp
    qed
  qed
  then show ?thesis by (simp add: filter_map comp_def)
qed

section \<open>The report\<close>

lemma fold_add_node_add_node:
  "fold add_node (add_node x ys) ks = add_node x (fold add_node ys ks)"
  by (cases "x \<in> set ys") (simp_all add: add_node_def)

lemma fold_add_node_fold:
  "fold add_node (fold add_node xs ys) ks = fold add_node xs (fold add_node ys ks)"
  by (induction xs arbitrary: ys) (simp_all add: fold_add_node_add_node)

lemma assemble_rings:
  "fraud_rings (assemble so G cycles) = map (\<lambda>i. ring_of (Suc i) (cycles ! i)) [0..<length cycles]"
proof -
  obtain rings sd where rl: "ring_loop cycles 1 [] [] = (rings, sd)" by (cases "ring_loop cycles 1 [] []")
  from ring_loop_fst[of cycles 1 "[]" "[]"] rl
  have "rings = map (\<lambda>i. ring_of (Suc i) (cycles ! i)) [0..<length cycles]" by simp
  with rl show ?thesis by (simp add: assemble_def Let_def)
qed

lemma assemble_accounts:
  "suspicious_accounts (assemble so G cycles) =
     sorted_reverse suspicion_score
       (map (make_account so (fraud_rings (assemble so G cycles))) (evidence_dict G cycles))"
proof -
  obtain rings sd where rl: "ring_loop cycles 1 [] [] = (rings, sd)" by (cases "ring_loop cycles 1 [] []")
  then show ?thesis by (simp add: assemble_def Let_def evidence_dict_def)
qed

lemma evidence_keys: "map fst (evidence_dict G cycles) = evidence_order G cycles"
  by (simp add: evidence_dict_def evidence_order_def merge_fan_keys ring_loop_snd cycles_keys
        detect_fan_patterns_keys fold_add_node_fold)

lemma evidence_distinct: "distinct (map fst (evidence_dict G cycles))"
  by (simp add: evidence_keys evidence_order_def)

lemma evidence_get:
  "set (dict_get (evidence_dict G cycles) a) =
     {cycle_label c |c. c \<in> set cycles \<and> a \<in> set c} \<union>
     (if a \<in> set (nodes G) then set (fan_labels G a) else {})"
proof -
  have "set (dict_get (detect_fan_patterns G) a) =
          (if a \<in> set (nodes G) then set (fan_labels G a) else {})"
    by (simp add: detect_fan_patterns_def fan_loop_get_set dict_get_Nil)
  then show ?thesis
    by (simp add: evidence_dict_def merge_fan_get[OF detect_fan_patterns_distinct] ring_loop_snd
          cycles_get dict_get_Nil)
qed

lemma make_account_id: "account_id (make_account so rings e) = fst e"
  by (cases e) (simp add: make_account_def)

lemma assemble_account_cases:
  assumes "acct \<in> set (suspicious_accounts (assemble so G cycles))"
  shows "account_id acct \<in> set (evidence_order G cycles) \<and>
         acct = make_account so (fraud_rings (assemble so G cycles))
                  (account_id acct, dict_get (evidence_dict G cycles) (account_id acct))"
proof -
  from assms obtain e where e: "e \<in> set (evidence_dict G cycles)"
    and a: "acct = make_account so (fraud_rings (assemble so G cycles)) e"
    by (auto simp: assemble_accounts sorted_reverse_set)
  obtain k vs where kv: "e = (k, vs)" by (cases e)
  from e kv have "dict_get (evidence_dict G cycles) k = vs"
    using dict_get_entry[OF evidence_distinct] by blast
  moreover from e kv have "k \<in> set (evidence_order G cycles)"
    unfolding evidence_keys[symmetric] by force
  moreover from a kv have "account_id acct = k" by (simp add: make_account_id)
  ultimately show ?thesis using a kv by simp
qed

lemma assemble_account_exists:
  assumes "a \<in> set (evidence_order G cycles)"
  shows "make_account so (fraud_rings (assemble so G cycles)) (a, dict_get (evidence_dict G cycles) a)
           \<in> set (suspicious_accounts (assemble so G cycles))"
proof -
  from assms obtain vs where e: "(a, vs) \<in> set (evidence_dict G cycles)"
    unfolding evidence_keys[symmetric] by auto
  then have "dict_get (evidence_dict G cycles) a = vs"
    using dict_get_entry[OF evidence_distinct] by blast
  with e show ?thesis
    by (auto simp: assemble_accounts sorted_reverse_set)
qed

lemma upload_file_report:
  assumes "upload_file so df out = (Inr rep, out')"
  shows "\<exists>G. add_rows (columns df) (rows df) empty_graph = Inr G \<and>
             rep = assemble so G (detect_cycles G) \<and> out' = Some rep"
  using assms by (auto simp: upload_file_def Let_def split: if_splits sum.splits)

section \<open>The graph built from the rows\<close>

lemma add_rows_add_edges:
  "add_rows cols rs G = Inr G' \<Longrightarrow> G' = add_edges (concat (map (transfer_of cols) rs)) G"
proof (induction rs arbitrary: G)
  case Nil
  then show ?case by (simp add: add_edges_def)
next
  case (Cons row rs)
  from Cons.prems obtain s r where s: "row_get cols row ''sender_id'' = Inr s"
    and r: "row_get cols row ''receiver_id'' = Inr r"
    and rest: "add_rows cols rs (add_edge s r G) = Inr G'"
    by (auto split: sum.splits)
  from Cons.IH[OF rest] s r show ?case
    by (simp add: add_edges_def transfer_of_def)
qed

lemma add_edges_edges_set: "set (edges (add_edges ps G)) = set (edges G) \<union> set ps"
  unfolding add_edges_def
  by (induction ps arbitrary: G) (auto simp: add_edge_def)

lemma add_edges_edges_distinct:
  "distinct (edges G) \<Longrightarrow> distinct (edges (add_edges ps G))"
  unfolding add_edges_def
  by (induction ps arbitrary: G) (auto simp: add_edge_def)

lemma add_edges_nodes:
  "nodes (add_edges ps G) = fold add_node (concat (map (\<lambda>p. [fst p, snd p]) ps)) (nodes G)"
  unfolding add_edges_def
  by (induction ps arbitrary: G) (auto simp: add_edge_def)

lemma built_graph:
  assumes "add_rows (columns df) (rows df) empty_graph = Inr G"
  shows "set (edges G) = set (transfers df)" and "distinct (edges G)"
    and "nodes G = first_appearance df" and "distinct (nodes G)"
proof -
  from add_rows_add_edges[OF assms] have G: "G = add_edges (transfers df) empty_graph"
    by (simp add: transfers_def)
  show "set (edges G) = set (transfers df)"
    by (simp add: G add_edges_edges_set empty_graph_def)
  show "distinct (edges G)"
    by (simp add: G add_edges_edges_distinct empty_graph_def)
  show n: "nodes G = first_appearance df"
    by (simp add: G add_edges_nodes first_appearance_def empty_graph_def)
  show "distinct (nodes G)"
    by (simp add: n first_appearance_def)
qed

lemma in_degree_card:
  assumes "distinct (edges G)"
  shows "in_degree G n = card (fst ` {p \<in> set (edges G). snd p = n})"
proof -
  have "inj_on fst {p \<in> set (edges G). snd p = n}"
    by (auto simp: inj_on_def prod_eq_iff)
  then have "card (fst ` {p \<in> set (edges G). snd p = n}) = card {p \<in> set (edges G). snd p = n}"
    by (rule card_image)
  also have "{p \<in> set (edges G). snd p = n} = set (filter (\<lambda>e. snd e = n) (edges G))"
    by auto
  also have "card \<dots> = length (filter (\<lambda>e. snd e = n) (edges G))"
    using assms distinct_card[of "filter (\<lambda>e. snd e = n) (edges G)"] by simp
  finally show ?thesis by (simp add: in_degree_def)
qed

lemma out_degree_card:
  assumes "distinct (edges G)"
  shows "out_degree G n = card (snd ` {p \<in> set (edges G). fst p = n})"
proof -
  have "inj_on snd {p \<in> set (edges G). fst p = n}"
    by (auto simp: inj_on_def prod_eq_iff)
  then have "card (snd ` {p \<in> set (edges G). fst p = n}) = card {p \<in> set (edges G). fst p = n}"
    by (rule card_image)
  also have "{p \<in> set (edges G). fst p = n} = set (filter (\<lambda>e. fst e = n) (edges G))"
    by auto
  also have "card \<dots> = length (filter (\<lambda>e. fst e = n) (edges G))"
    using assms distinct_card[of "filter (\<lambda>e. fst e = n) (edges G)"] by simp
  finally show ?thesis by (simp add: out_degree_def)
qed

lemma first_appearance_set:
  "set (first_appearance df) = fst ` set (transfers df) \<union> snd ` set (transfers df)"
  by (auto simp: first_appearance_def)

lemma degree_positive_node:
  fixes df :: dataframe
  assumes "add_rows (columns df) (rows df) empty_graph = Inr G"
    and "0 < in_degree G n \<or> 0 < out_degree G n"
  shows "n \<in> set (nodes G)"
proof -
  from assms(2) obtain p where "p \<in> set (edges G)" "snd p = n \<or> fst p = n"
    unfolding in_degree_def out_degree_def length_greater_0_conv
    by (metis (mono_tags, lifting) filter_empty_conv)
  with built_graph(1,3)[OF assms(1)] show ?thesis
    by (auto simp: first_appearance_set)
qed

section \<open>Accounts, labels and rings\<close>

lemma set_listing_set: "set_listing so \<Longrightarrow> set (so ps) = set ps"
  by (simp add: set_listing_def)

lemma make_account_patterns: "detected_patterns (make_account so rings (a, ps)) = so ps"
  by (simp add: make_account_def)

lemma make_account_ring: "account_ring_id (make_account so rings (a, ps)) = find_ring_id a rings"
  by (simp add: make_account_def)

lemma make_account_score: "suspicion_score (make_account so rings (a, ps)) = calculate_score ps"
  by (simp add: make_account_def)

lemma assemble_ring_members:
  "member_accounts ` set (fraud_rings (assemble so G cycles)) = set cycles"
proof -
  have "map member_accounts (fraud_rings (assemble so G cycles)) = cycles"
    by (simp add: assemble_rings ring_of_def comp_def map_nth)
  then have "set (map member_accounts (fraud_rings (assemble so G cycles))) = set cycles"
    by simp
  then show ?thesis by simp
qed

lemma assemble_ring_ids:
  "r \<in> set (fraud_rings (assemble so G cycles)) \<Longrightarrow> \<exists>i. ring_id r = ''RING_'' @ fmt_03d i"
  by (auto simp: assemble_rings ring_of_def)

lemma find_ring_id_none:
  "\<forall>r \<in> set rings. a \<notin> set (member_accounts r) \<Longrightarrow> find_ring_id a rings = ''N/A''"
  by (induction rings) simp_all

lemma find_ring_id_some:
  "\<exists>r \<in> set rings. a \<in> set (member_accounts r) \<Longrightarrow>
   \<exists>r \<in> set rings. a \<in> set (member_accounts r) \<and> find_ring_id a rings = ring_id r"
  by (induction rings) auto

lemma cycle_label_prefix: "starts_with (cycle_label c) ''cycle_length_''"
  by (simp add: starts_with_def cycle_label_def)

lemma cycle_label_not_fan: "cycle_label c \<noteq> ''fan_in''" "cycle_label c \<noteq> ''fan_out''"
  by (simp_all add: cycle_label_def)

lemma fan_labels_set: "set (fan_labels G a) \<subseteq> {''fan_in'', ''fan_out''}"
  by (cases "10 \<le> in_degree G a"; cases "10 \<le> out_degree G a") (simp_all add: fan_labels_def)

lemma fan_not_prefix:
  "\<not> starts_with ''fan_in'' ''cycle_length_''" "\<not> starts_with ''fan_out'' ''cycle_length_''"
  by (simp_all add: starts_with_def)

lemma ring_id_not_na: "''RING_'' @ x \<noteq> ''N/A''"
  by simp

section \<open>The example inputs, evaluated\<close>

lemma tie_graph_built: "add_rows (columns tie_frame) (rows tie_frame) empty_graph = Inr tie_graph"
  by code_simp

lemma tie_upload: "upload_file remdups tie_frame None = (Inr tie_report, Some tie_report)"
  by code_simp

lemma hub_graph_built: "add_rows (columns hub_frame) (rows hub_frame) empty_graph = Inr hub_graph"
  by code_simp

lemma hub_upload:
  "upload_file remdups hub_frame None =
     (Inr (hub_report [''cycle_length_3'', ''fan_out'']),
      Some (hub_report [''cycle_length_3'', ''fan_out'']))"
  by code_simp

lemma set_listing_remdups: "set_listing remdups"
  by (simp add: set_listing_def)


lemma tie_first_appearance: "first_appearance tie_frame = [''A'', ''X'', ''C'', ''B'']"
  by code_simp

lemma repeat_graph_built:
  "add_rows (columns repeat_frame) (rows repeat_frame) empty_graph = Inr repeat_graph"
  by code_simp

lemma repeat_raw_count: "length (filter (\<lambda>p. snd p = ''Z'') (transfers repeat_frame)) = 10"
  by code_simp

lemma hub_fan_X: "dict_get (detect_fan_patterns hub_graph) ''X'' = [''fan_out'']"
  by code_simp

lemma repeat_fan_Z: "dict_get (detect_fan_patterns repeat_graph) ''Z'' = []"
  by code_simp

section \<open>C2: the score\<close>

lemma str_in_literals:
  "str_in ''cycle'' ''cycle_length_3''" "str_in ''cycle'' ''cycle_length_4''"
  "str_in ''cycle'' ''cycle_length_5''"
  "\<not> str_in ''cycle'' ''fan_in''" "\<not> str_in ''cycle'' ''fan_out''"
  by code_simp+

lemma fan_not_cycle_label:
  "''fan_in'' \<notin> cycle_labels" "''fan_out'' \<notin> cycle_labels"
  by (simp_all add: cycle_labels_def)

lemma str_in_cycle_valid:
  assumes "p \<in> valid_labels"
  shows "str_in ''cycle'' p \<longleftrightarrow> p \<in> cycle_labels"
proof -
  from assms consider "p = ''cycle_length_3''" | "p = ''cycle_length_4''" | "p = ''cycle_length_5''"
    | "p = ''fan_in''" | "p = ''fan_out''"
    unfolding valid_labels_def cycle_labels_def by blast
  then show ?thesis
  proof cases
    case 1 then show ?thesis using str_in_literals(1) by (simp only: cycle_labels_def insertI1 simp_thms)
  next
    case 2 then show ?thesis using str_in_literals(2) by (simp only: cycle_labels_def insertI1 insert_iff simp_thms)
  next
    case 3 then show ?thesis using str_in_literals(3) by (simp only: cycle_labels_def insertI1 insert_iff simp_thms)
  next
    case 4 then show ?thesis using str_in_literals(4) fan_not_cycle_label(1) by (simp only: simp_thms)
  next
    case 5 then show ?thesis using str_in_literals(5) fan_not_cycle_label(2) by (simp only: simp_thms)
  qed
qed

lemma calculate_score_set:
  "set qs = set ps \<Longrightarrow> calculate_score qs = calculate_score ps"
  by (simp add: calculate_score_def list_ex_iff)

lemma calculate_score_range: "0 \<le> calculate_score ps \<and> calculate_score ps \<le> 100"
  by (simp add: calculate_score_def Let_def)

text \<open>
  C2: for labels drawn from the three cycle labels, fan_in and fan_out, with or without
  duplicates, the score is min(100, 50 [some cycle label] + 20 [fan_in] + 20 [fan_out]); it lies
  between 0 and 100, and any list with the same set of labels, so any reordering and any
  duplication, scores the same.
\<close>

theorem calculate_score_formula:
  assumes "set patterns \<subseteq> valid_labels"
  shows "calculate_score patterns =
           min 100 (50 * of_bool (\<exists>p \<in> set patterns. p \<in> cycle_labels)
                    + 20 * of_bool (''fan_in'' \<in> set patterns)
                    + 20 * of_bool (''fan_out'' \<in> set patterns))
         \<and> 0 \<le> calculate_score patterns \<and> calculate_score patterns \<le> 100
         \<and> (\<forall>qs. set qs = set patterns \<longrightarrow> calculate_score qs = calculate_score patterns)"
proof -
  from assms have "(\<exists>p \<in> set patterns. str_in ''cycle'' p) \<longleftrightarrow> (\<exists>p \<in> set patterns. p \<in> cycle_labels)"
    using str_in_cycle_valid by blast
  then have "calculate_score patterns =
           min 100 (50 * of_bool (\<exists>p \<in> set patterns. p \<in> cycle_labels)
                    + 20 * of_bool (''fan_in'' \<in> set patterns)
                    + 20 * of_bool (''fan_out'' \<in> set patterns))"
    by (simp add: calculate_score_def Let_def list_ex_iff)
  then show ?thesis
    using calculate_score_range[of patterns] calculate_score_set[of _ patterns] by blast
qed

theorem calculate_score_formula_witness:
  "set [''fan_out'', ''cycle_length_4'', ''fan_out'', ''cycle_length_3''] \<subseteq> valid_labels
   \<and> calculate_score [''fan_out'', ''cycle_length_4'', ''fan_out'', ''cycle_length_3''] = 70
   \<and> calculate_score [''cycle_length_3'', ''fan_out'', ''cycle_length_4''] = 70"
proof -
  have h: "set [''fan_out'', ''cycle_length_4'', ''fan_out'', ''cycle_length_3''] \<subseteq> valid_labels"
    by (simp add: valid_labels_def cycle_labels_def)
  have s: "set [''cycle_length_3'', ''fan_out'', ''cycle_length_4'']
         = set [''fan_out'', ''cycle_length_4'', ''fan_out'', ''cycle_length_3'']"
    by auto
  from calculate_score_formula[OF h] s h show ?thesis
    by (simp add: cycle_labels_def)
qed

section \<open>C3: the order of the accounts\<close>

lemma assemble_ties:
  "ties_follow (evidence_order G cycles) (suspicious_accounts (assemble so G cycles))"
proof -
  let ?xs = "map (make_account so (fraud_rings (assemble so G cycles))) (evidence_dict G cycles)"
  have ids: "map account_id ?xs = evidence_order G cycles"
    by (simp add: comp_def make_account_id evidence_keys[symmetric])
  then have d: "distinct (map account_id ?xs)"
    by (simp add: evidence_order_def)
  have "map account_id (filter (\<lambda>a. suspicion_score a = s) (suspicious_accounts (assemble so G cycles))) =
        filter (\<lambda>x. x \<in> set (map account_id
                  (filter (\<lambda>a. suspicion_score a = s) (suspicious_accounts (assemble so G cycles)))))
          (evidence_order G cycles)" for s
    using map_filter_distinct[OF d, of "\<lambda>a. suspicion_score a = s"]
    unfolding assemble_accounts sorted_reverse_stable ids .
  then show ?thesis unfolding ties_follow_def by blast
qed

text \<open>
  C3, as the code has it: the accounts of a report are sorted by score, highest first, and
  accounts of equal score keep the order in which they entered the evidence dictionary: the
  members of the rings in detection order, cycle by cycle and along each cycle, then the
  hubs that are on no ring, in node order.
\<close>

theorem accounts_sorted_stable:
  assumes "add_rows (columns df) (rows df) empty_graph = Inr G"
    and "upload_file so df out = (Inr rep, out')"
  shows "sorted_wrt (\<lambda>a b. suspicion_score a \<ge> suspicion_score b) (suspicious_accounts rep)
       \<and> ties_follow (evidence_order G (detect_cycles G)) (suspicious_accounts rep)"
proof -
  from upload_file_report[OF assms(2)] assms(1)
  have rep: "rep = assemble so G (detect_cycles G)" by auto
  show ?thesis
    unfolding rep using assemble_ties[of G "detect_cycles G" so]
    by (simp add: assemble_accounts sorted_reverse_desc)
qed

theorem accounts_sorted_stable_witness:
  "add_rows (columns hub_frame) (rows hub_frame) empty_graph = Inr hub_graph
   \<and> upload_file remdups hub_frame None =
       (Inr (hub_report [''cycle_length_3'', ''fan_out'']),
        Some (hub_report [''cycle_length_3'', ''fan_out'']))
   \<and> evidence_order hub_graph (detect_cycles hub_graph) = [''X'', ''B'', ''C'', ''H'']
   \<and> map suspicion_score (suspicious_accounts (hub_report [''cycle_length_3'', ''fan_out'']))
        = [70, 50, 50, 20]
   \<and> ties_follow [''X'', ''B'', ''C'', ''H'']
        (suspicious_accounts (hub_report [''cycle_length_3'', ''fan_out'']))"
proof -
  have e: "evidence_order hub_graph (detect_cycles hub_graph) = [''X'', ''B'', ''C'', ''H'']"
    by code_simp
  have s: "map suspicion_score (suspicious_accounts (hub_report [''cycle_length_3'', ''fan_out'']))
        = [70, 50, 50, 20]"
    by (simp add: hub_report_def hub_account_def ring_account_def sink_account_def)
  from accounts_sorted_stable[OF hub_graph_built hub_upload] e s hub_graph_built hub_upload
  show ?thesis by simp
qed

lemma ties_follow_fails:
  assumes "accounts = [ring_account a, ring_account b, ring_account c]"
    and "filter (\<lambda>x. x = a \<or> x = b \<or> x = c) order \<noteq> [a, b, c]"
  shows "\<not> ties_follow order accounts"
proof
  assume "ties_follow order accounts"
  moreover have "50 \<in> set (map suspicion_score accounts)"
    by (simp add: assms(1) ring_account_def)
  ultimately have "map account_id (filter (\<lambda>a. suspicion_score a = 50) accounts) =
        filter (\<lambda>x. x \<in> set (map account_id (filter (\<lambda>a. suspicion_score a = 50) accounts))) order"
    unfolding ties_follow_def by (rule bspec)
  then have "[a, b, c] = filter (\<lambda>x. x = a \<or> x = b \<or> x = c) order"
    by (simp add: assms(1) ring_account_def)
  with assms(2) show False by simp
qed

text \<open>
  C3 as stated fails: the three accounts of the example score 50 each and are reported as
  A, B, C, while they first appear in the rows as A, C, B; the same holds whichever member
  the enumerator starts the cycle from.
\<close>

theorem tie_order_counterexample:
  "upload_file remdups tie_frame None = (Inr tie_report, Some tie_report)
   \<and> first_appearance tie_frame = [''A'', ''X'', ''C'', ''B'']
   \<and> map account_id (suspicious_accounts tie_report) = [''A'', ''B'', ''C'']
   \<and> map suspicion_score (suspicious_accounts tie_report) = [50, 50, 50]
   \<and> \<not> ties_follow (first_appearance tie_frame) (suspicious_accounts tie_report)
   \<and> \<not> ties_follow (first_appearance tie_frame)
         (suspicious_accounts (assemble remdups tie_graph [[''B'', ''C'', ''A'']]))
   \<and> \<not> ties_follow (first_appearance tie_frame)
         (suspicious_accounts (assemble remdups tie_graph [[''C'', ''A'', ''B'']]))"
proof -
  have 1: "\<not> ties_follow (first_appearance tie_frame) (suspicious_accounts tie_report)"
    by (rule ties_follow_fails[of _ "''A''" "''B''" "''C''"])
       (simp_all add: tie_report_def tie_first_appearance)
  have "suspicious_accounts (assemble remdups tie_graph [[''B'', ''C'', ''A'']]) =
          [ring_account ''B'', ring_account ''C'', ring_account ''A'']"
    by code_simp
  then have 2: "\<not> ties_follow (first_appearance tie_frame)
         (suspicious_accounts (assemble remdups tie_graph [[''B'', ''C'', ''A'']]))"
    by (rule ties_follow_fails) (simp add: tie_first_appearance)
  have "suspicious_accounts (assemble remdups tie_graph [[''C'', ''A'', ''B'']]) =
          [ring_account ''C'', ring_account ''A'', ring_account ''B'']"
    by code_simp
  then have 3: "\<not> ties_follow (first_appearance tie_frame)
         (suspicious_accounts (assemble remdups tie_graph [[''C'', ''A'', ''B'']]))"
    by (rule ties_follow_fails) (simp add: tie_first_appearance)
  have 4: "map account_id (suspicious_accounts tie_report) = [''A'', ''B'', ''C'']"
    "map suspicion_score (suspicious_accounts tie_report) = [50, 50, 50]"
    by (simp_all add: tie_report_def ring_account_def)
  from tie_upload tie_first_appearance 1 2 3 4 show ?thesis by blast
qed

section \<open>C4: ring members are flagged\<close>

text \<open>
  C4: every account among the members of a ring of the report is an account of
  \<open>suspicious_accounts\<close>, and its labels hold cycle_length_k for the number k of
  members of that ring.
\<close>

theorem ring_members_flagged:
  assumes "set_listing so"
    and "upload_file so df out = (Inr rep, out')"
    and "r \<in> set (fraud_rings rep)"
    and "a \<in> set (member_accounts r)"
  shows "\<exists>acct \<in> set (suspicious_accounts rep).
           account_id acct = a \<and>
           (''cycle_length_'' @ str_nat (length (member_accounts r))) \<in> set (detected_patterns acct)"
proof -
  from upload_file_report[OF assms(2)] obtain G where
    rep: "rep = assemble so G (detect_cycles G)" by blast
  let ?cycles = "detect_cycles G"
  let ?ps = "dict_get (evidence_dict G ?cycles) a"
  let ?acct = "make_account so (fraud_rings rep) (a, ?ps)"
  from assms(3) rep assemble_ring_members[of so G ?cycles]
  have c: "member_accounts r \<in> set ?cycles" by blast
  with assms(4) have "a \<in> set (evidence_order G ?cycles)"
    by (auto simp: evidence_order_def)
  from assemble_account_exists[OF this, of so] rep
  have "?acct \<in> set (suspicious_accounts rep)" by simp
  moreover have "account_id ?acct = a" by (simp add: make_account_id)
  moreover from c assms(4) have "cycle_label (member_accounts r) \<in> set ?ps"
    unfolding evidence_get by blast
  then have "(''cycle_length_'' @ str_nat (length (member_accounts r))) \<in> set (detected_patterns ?acct)"
    by (simp add: make_account_patterns set_listing_set[OF assms(1)] cycle_label_def)
  ultimately show ?thesis by blast
qed

theorem ring_members_flagged_witness:
  "set_listing remdups
   \<and> upload_file remdups hub_frame None =
       (Inr (hub_report [''cycle_length_3'', ''fan_out'']),
        Some (hub_report [''cycle_length_3'', ''fan_out'']))
   \<and> ring_001 [''X'', ''B'', ''C''] \<in> set (fraud_rings (hub_report [''cycle_length_3'', ''fan_out'']))
   \<and> ''B'' \<in> set (member_accounts (ring_001 [''X'', ''B'', ''C'']))
   \<and> (\<exists>acct \<in> set (suspicious_accounts (hub_report [''cycle_length_3'', ''fan_out''])).
          account_id acct = ''B'' \<and> ''cycle_length_3'' \<in> set (detected_patterns acct))"
proof -
  have r: "ring_001 [''X'', ''B'', ''C''] \<in> set (fraud_rings (hub_report [''cycle_length_3'', ''fan_out'']))"
    by (simp add: hub_report_def)
  have m: "''B'' \<in> set (member_accounts (ring_001 [''X'', ''B'', ''C'']))"
    by (simp add: ring_001_def)
  have l: "''cycle_length_'' @ str_nat (length (member_accounts (ring_001 [''X'', ''B'', ''C''])))
           = ''cycle_length_3''"
    by code_simp
  from ring_members_flagged[OF set_listing_remdups hub_upload r m] l
  show ?thesis using set_listing_remdups hub_upload r m by simp
qed

section \<open>C5: the rings\<close>

text \<open>
  C5: the loop makes one ring per cycle, in order; the ring at position i (from 0) has the
  identifier RING_ followed by i + 1 padded with zeros to three digits, the cycle as its
  members, the pattern type cycle and the risk score 95.
\<close>

theorem ring_loop_rings:
  "length (fst (ring_loop cycles 1 [] [])) = length cycles \<and>
   (\<forall>i < length cycles.
      fst (ring_loop cycles 1 [] []) ! i =
        \<lparr>ring_id = ''RING_'' @ fmt_03d (i + 1), member_accounts = cycles ! i,
         pattern_type = ''cycle'', risk_score = 95\<rparr>)"
  by (simp add: ring_loop_fst ring_of_def)

theorem ring_loop_rings_witness:
  "(1::nat) < length two_cycles \<and>
   fst (ring_loop two_cycles 1 [] []) ! 1 =
     \<lparr>ring_id = ''RING_002'', member_accounts = [''D'', ''E'', ''F'', ''G''],
      pattern_type = ''cycle'', risk_score = 95\<rparr>"
proof -
  have l: "(1::nat) < length two_cycles" by (simp add: two_cycles_def)
  have f: "fmt_03d (1 + 1) = ''002''" by code_simp
  from ring_loop_rings[of two_cycles] l
  have "fst (ring_loop two_cycles 1 [] []) ! 1 =
        \<lparr>ring_id = ''RING_'' @ fmt_03d (1 + 1), member_accounts = two_cycles ! 1,
         pattern_type = ''cycle'', risk_score = 95\<rparr>" by blast
  with l f show ?thesis by (simp add: two_cycles_def)
qed

section \<open>C6: the ring of an account\<close>

lemma find_ring_id_find:
  "find_ring_id a rings =
     (case find (\<lambda>r. a \<in> set (member_accounts r)) rings of
        None \<Rightarrow> ''N/A'' | Some r \<Rightarrow> ring_id r)"
  by (induction rings) simp_all

text \<open>
  C6: the ring identifier of an account of the report is that of the first ring, in list
  order, whose members hold the account, and N/A when no ring does.
\<close>

theorem account_ring_id_first:
  assumes "upload_file so df out = (Inr rep, out')"
    and "acct \<in> set (suspicious_accounts rep)"
  shows "account_ring_id acct =
           (case find (\<lambda>r. account_id acct \<in> set (member_accounts r)) (fraud_rings rep) of
              None \<Rightarrow> ''N/A'' | Some r \<Rightarrow> ring_id r)"
proof -
  from upload_file_report[OF assms(1)] obtain G where
    rep: "rep = assemble so G (detect_cycles G)" by blast
  from assemble_account_cases[of acct so G "detect_cycles G"] assms(2) rep
  have "acct = make_account so (fraud_rings rep)
                  (account_id acct, dict_get (evidence_dict G (detect_cycles G)) (account_id acct))"
    by simp
  then have "account_ring_id acct = find_ring_id (account_id acct) (fraud_rings rep)"
    by (metis make_account_ring)
  then show ?thesis by (simp add: find_ring_id_find)
qed

theorem account_ring_id_first_witness:
  "upload_file remdups hub_frame None =
       (Inr (hub_report [''cycle_length_3'', ''fan_out'']),
        Some (hub_report [''cycle_length_3'', ''fan_out'']))
   \<and> ring_account ''C'' \<in> set (suspicious_accounts (hub_report [''cycle_length_3'', ''fan_out'']))
   \<and> account_ring_id (ring_account ''C'') = ''RING_001''
   \<and> find (\<lambda>r. ''C'' \<in> set (member_accounts r)) (fraud_rings (hub_report [''cycle_length_3'', ''fan_out'']))
        = Some (ring_001 [''X'', ''B'', ''C''])
   \<and> sink_account \<in> set (suspicious_accounts (hub_report [''cycle_length_3'', ''fan_out'']))
   \<and> account_ring_id sink_account = ''N/A''
   \<and> find (\<lambda>r. ''H'' \<in> set (member_accounts r)) (fraud_rings (hub_report [''cycle_length_3'', ''fan_out'']))
        = None"
proof -
  have a: "ring_account ''C'' \<in> set (suspicious_accounts (hub_report [''cycle_length_3'', ''fan_out'']))"
    and b: "sink_account \<in> set (suspicious_accounts (hub_report [''cycle_length_3'', ''fan_out'']))"
    by (simp_all add: hub_report_def)
  have f: "find (\<lambda>r. ''C'' \<in> set (member_accounts r)) (fraud_rings (hub_report [''cycle_length_3'', ''fan_out'']))
        = Some (ring_001 [''X'', ''B'', ''C''])"
    and g: "find (\<lambda>r. ''H'' \<in> set (member_accounts r)) (fraud_rings (hub_report [''cycle_length_3'', ''fan_out'']))
        = None"
    by (simp_all add: hub_report_def ring_001_def)
  from account_ring_id_first[OF hub_upload a] f
  have 1: "account_ring_id (ring_account ''C'') = ''RING_001''"
    by (simp add: ring_account_def ring_001_def)
  from account_ring_id_first[OF hub_upload b] g
  have 2: "account_ring_id sink_account = ''N/A''"
    by (simp add: sink_account_def)
  from hub_upload a b f g 1 2 show ?thesis by blast
qed

section \<open>C7: a missing column\<close>

text \<open>
  C7: when one of the five required columns is missing, the route answers with the
  invalid-format error whatever the rows are, builds no graph and leaves the result file as
  it was.
\<close>

theorem upload_file_missing_column:
  assumes "c \<in> set required_columns" and "c \<notin> set (columns df)"
  shows "upload_file so df out = (Inl Invalid_CSV_format, out)"
  using assms by (auto simp: upload_file_def)

theorem upload_file_missing_column_witness:
  "''timestamp'' \<in> set required_columns
   \<and> ''timestamp'' \<notin> set (columns short_frame)
   \<and> upload_file remdups short_frame (Some tie_report) = (Inl Invalid_CSV_format, Some tie_report)"
proof -
  have a: "''timestamp'' \<in> set required_columns" by (simp add: required_columns_def)
  have b: "''timestamp'' \<notin> set (columns short_frame)" by (simp add: short_frame_def)
  from upload_file_missing_column[OF a b] a b show ?thesis by blast
qed

section \<open>C8: fan labels and degrees\<close>

text \<open>
  C8: on the graph built from the rows, a node is labelled fan_in exactly when at least
  ten distinct accounts send to it, and fan_out exactly when it sends to at least ten
  distinct accounts; repeated transfers between the same two accounts count once.
\<close>

theorem fan_patterns_threshold:
  assumes "add_rows (columns df) (rows df) empty_graph = Inr G"
  shows "(''fan_in'' \<in> set (dict_get (detect_fan_patterns G) n) \<longleftrightarrow> 10 \<le> card (senders_to df n))
       \<and> (''fan_out'' \<in> set (dict_get (detect_fan_patterns G) n) \<longleftrightarrow> 10 \<le> card (receivers_from df n))"
proof -
  note b = built_graph[OF assms]
  have i: "in_degree G n = card (senders_to df n)"
    by (simp add: in_degree_card[OF b(2)] b(1) senders_to_def)
  have o: "out_degree G n = card (receivers_from df n)"
    by (simp add: out_degree_card[OF b(2)] b(1) receivers_from_def)
  have node: "10 \<le> in_degree G n \<or> 10 \<le> out_degree G n \<Longrightarrow> n \<in> set (nodes G)"
    using degree_positive_node[OF assms, of n] by auto
  have "set (dict_get (detect_fan_patterns G) n) =
          (if n \<in> set (nodes G) then set (fan_labels G n) else {})"
    by (simp add: detect_fan_patterns_def fan_loop_get_set dict_get_Nil)
  with node have "set (dict_get (detect_fan_patterns G) n) = set (fan_labels G n)"
    by (auto simp: fan_labels_def)
  then show ?thesis
    by (simp add: fan_labels_def i o)
qed

theorem fan_patterns_threshold_witness:
  "add_rows (columns hub_frame) (rows hub_frame) empty_graph = Inr hub_graph
   \<and> ''fan_out'' \<in> set (dict_get (detect_fan_patterns hub_graph) ''X'')
   \<and> 10 \<le> card (receivers_from hub_frame ''X'')
   \<and> ''fan_in'' \<notin> set (dict_get (detect_fan_patterns hub_graph) ''X'')
   \<and> \<not> 10 \<le> card (senders_to hub_frame ''X'')
   \<and> add_rows (columns repeat_frame) (rows repeat_frame) empty_graph = Inr repeat_graph
   \<and> length (filter (\<lambda>p. snd p = ''Z'') (transfers repeat_frame)) = 10
   \<and> ''fan_in'' \<notin> set (dict_get (detect_fan_patterns repeat_graph) ''Z'')
   \<and> \<not> 10 \<le> card (senders_to repeat_frame ''Z'')"
proof -
  from fan_patterns_threshold[OF hub_graph_built, of "''X''"] hub_fan_X
  have 1: "10 \<le> card (receivers_from hub_frame ''X'')"
    and 2: "\<not> 10 \<le> card (senders_to hub_frame ''X'')" by simp_all
  from fan_patterns_threshold[OF repeat_graph_built, of "''Z''"] repeat_fan_Z
  have 3: "\<not> 10 \<le> card (senders_to repeat_frame ''Z'')" by simp
  from 1 2 3 hub_graph_built repeat_graph_built repeat_raw_count hub_fan_X repeat_fan_Z
  show ?thesis by simp
qed

section \<open>C9: two runs\<close>

























lemma pair_graph_built: "add_rows (columns pair_frame) (rows pair_frame) empty_graph = Inr pair_graph"
  by code_simp











lemma hub_simple_cycles: "simple_cycles hub_graph = [[''X'', ''B'', ''C'']]"
  by code_simp





section \<open>C10: cycle labels and ring identifiers\<close>

text \<open>
  C10: an account of the report with a label that starts with cycle_length_ has the
  identifier of a ring that holds it, never N/A; an account whose labels are among fan_in
  and fan_out has N/A.
\<close>

theorem cycle_label_iff_ring:
  assumes "set_listing so"
    and "upload_file so df out = (Inr rep, out')"
    and "acct \<in> set (suspicious_accounts rep)"
  shows "((\<exists>p \<in> set (detected_patterns acct). starts_with p ''cycle_length_'') \<longrightarrow>
            account_ring_id acct \<noteq> ''N/A'' \<and>
            (\<exists>r \<in> set (fraud_rings rep). account_id acct \<in> set (member_accounts r)
                  \<and> account_ring_id acct = ring_id r))
       \<and> (set (detected_patterns acct) \<subseteq> {''fan_in'', ''fan_out''} \<longrightarrow>
            account_ring_id acct = ''N/A'')"
proof -
  from upload_file_report[OF assms(2)] obtain G where
    rep: "rep = assemble so G (detect_cycles G)" by blast
  let ?cycles = "detect_cycles G"
  let ?a = "account_id acct"
  let ?ps = "dict_get (evidence_dict G ?cycles) ?a"
  from assemble_account_cases[of acct so G ?cycles] assms(3) rep
  have acct: "acct = make_account so (fraud_rings rep) (?a, ?ps)" by simp
  have pats: "set (detected_patterns acct) = set ?ps"
    by (subst acct) (simp add: make_account_patterns set_listing_set[OF assms(1)])
  have ring: "account_ring_id acct = find_ring_id ?a (fraud_rings rep)"
    by (subst acct) (simp add: make_account_ring)
  have members: "member_accounts ` set (fraud_rings rep) = set ?cycles"
    by (simp add: rep assemble_ring_members)
  have one: "account_ring_id acct \<noteq> ''N/A'' \<and>
            (\<exists>r \<in> set (fraud_rings rep). ?a \<in> set (member_accounts r)
                  \<and> account_ring_id acct = ring_id r)"
    if "\<exists>p \<in> set (detected_patterns acct). starts_with p ''cycle_length_''"
  proof -
    from that pats obtain p where p: "p \<in> set ?ps" "starts_with p ''cycle_length_''" by auto
    from p(1) have "(\<exists>c. p = cycle_label c \<and> c \<in> set ?cycles \<and> ?a \<in> set c)
                  \<or> p \<in> set (fan_labels G ?a)"
      unfolding evidence_get by (auto split: if_splits)
    moreover from p(2) fan_not_prefix fan_labels_set[of G ?a] have "p \<notin> set (fan_labels G ?a)"
      by auto
    ultimately obtain c where "c \<in> set ?cycles" "?a \<in> set c" by blast
    with members have "\<exists>r \<in> set (fraud_rings rep). ?a \<in> set (member_accounts r)"
      by (metis (no_types, lifting) imageE)
    from find_ring_id_some[OF this] ring obtain r where
      r: "r \<in> set (fraud_rings rep)" "?a \<in> set (member_accounts r)" "account_ring_id acct = ring_id r"
      by auto
    from r(1) rep assemble_ring_ids obtain i where "ring_id r = ''RING_'' @ fmt_03d i" by blast
    with r(3) have "account_ring_id acct \<noteq> ''N/A''" by simp
    with r show ?thesis by blast
  qed
  have two: "account_ring_id acct = ''N/A''"
    if "set (detected_patterns acct) \<subseteq> {''fan_in'', ''fan_out''}"
  proof -
    have "\<forall>r \<in> set (fraud_rings rep). ?a \<notin> set (member_accounts r)"
    proof (rule ballI, rule notI)
      fix r assume r: "r \<in> set (fraud_rings rep)" "?a \<in> set (member_accounts r)"
      with members have "member_accounts r \<in> set ?cycles" by blast
      with r(2) have "cycle_label (member_accounts r) \<in> set ?ps"
        unfolding evidence_get by blast
      with that pats have "cycle_label (member_accounts r) \<in> {''fan_in'', ''fan_out''}" by blast
      with cycle_label_not_fan show False by blast
    qed
    from find_ring_id_none[OF this] ring show ?thesis by simp
  qed
  from one two show ?thesis by blast
qed

theorem cycle_label_iff_ring_witness:
  "set_listing remdups
   \<and> upload_file remdups hub_frame None =
       (Inr (hub_report [''cycle_length_3'', ''fan_out'']),
        Some (hub_report [''cycle_length_3'', ''fan_out'']))
   \<and> hub_account [''cycle_length_3'', ''fan_out'']
        \<in> set (suspicious_accounts (hub_report [''cycle_length_3'', ''fan_out'']))
   \<and> starts_with ''cycle_length_3'' ''cycle_length_''
   \<and> account_ring_id (hub_account [''cycle_length_3'', ''fan_out'']) \<noteq> ''N/A''
   \<and> sink_account \<in> set (suspicious_accounts (hub_report [''cycle_length_3'', ''fan_out'']))
   \<and> set (detected_patterns sink_account) \<subseteq> {''fan_in'', ''fan_out''}
   \<and> account_ring_id sink_account = ''N/A''"
proof -
  have a: "hub_account [''cycle_length_3'', ''fan_out'']
        \<in> set (suspicious_accounts (hub_report [''cycle_length_3'', ''fan_out'']))"
    and b: "sink_account \<in> set (suspicious_accounts (hub_report [''cycle_length_3'', ''fan_out'']))"
    by (simp_all add: hub_report_def)
  have p: "\<exists>p \<in> set (detected_patterns (hub_account [''cycle_length_3'', ''fan_out''])).
             starts_with p ''cycle_length_''"
    and p': "starts_with ''cycle_length_3'' ''cycle_length_''"
    by (simp_all add: hub_account_def starts_with_def)
  have q: "set (detected_patterns sink_account) \<subseteq> {''fan_in'', ''fan_out''}"
    by (simp add: sink_account_def)
  from cycle_label_iff_ring[OF set_listing_remdups hub_upload a] p
  have 1: "account_ring_id (hub_account [''cycle_length_3'', ''fan_out'']) \<noteq> ''N/A''" by blast
  from cycle_label_iff_ring[OF set_listing_remdups hub_upload b] q
  have 2: "account_ring_id sink_account = ''N/A''" by blast
  from set_listing_remdups hub_upload a b p' q 1 2 show ?thesis by blast
qed

end
